theory Spec2Isabelle
  imports Main "HOL-Library.Sublist"
begin

section \<open>Text primitives\<close>

text \<open>
  Texts are lists of characters, one \<^typ>\<open>char\<close> per code point below 256.  On these
  code points Python's \<^verbatim>\<open>str.lower()\<close> works character by character: it moves
  \<^verbatim>\<open>A\<close> .. \<^verbatim>\<open>Z\<close> and the accented capitals 192 .. 222 (without the
  multiplication sign 215) up by 32 and leaves the rest alone.  Python's
  \<^verbatim>\<open>keyword in text\<close> on strings is the contiguous-substring test, which is
  \<^const>\<open>sublist\<close>.
\<close>

definition lower_char :: "char \<Rightarrow> char" where
  "lower_char c =
     (let n = (of_char c :: nat)
      in if (65 \<le> n \<and> n \<le> 90) \<or> (192 \<le> n \<and> n \<le> 222 \<and> n \<noteq> 215)
         then char_of (n + 32) else c)"

definition lower :: "string \<Rightarrow> string" where
  "lower s = map lower_char s"

text \<open>\<^verbatim>\<open>str.strip()\<close>: drops leading and trailing white space (\<^verbatim>\<open>str.isspace\<close>).\<close>

definition isspace :: "char \<Rightarrow> bool" where
  "isspace c =
     (let n = (of_char c :: nat)
      in (9 \<le> n \<and> n \<le> 13) \<or> (28 \<le> n \<and> n \<le> 32) \<or> n = 133 \<or> n = 160)"

definition strip :: "string \<Rightarrow> string" where
  "strip s = rev (dropWhile isspace (rev (dropWhile isspace s)))"

section \<open>Configuration (rss\_config.py)\<close>

text \<open>A tier is the dict \<^verbatim>\<open>{"keywords": [...], "score": n}\<close>.\<close>

record tier =
  tier_keywords :: "string list"
  tier_score :: int

definition PRIORITY_KEYWORDS :: "(string \<times> tier) list" where
  "PRIORITY_KEYWORDS =
     [(''critical'',
       \<lparr>tier_keywords = [''president'', ''biden'', ''trump'', ''white house'', ''congress'', ''senate'',
                    ''supreme court'', ''election'', ''vote'', ''pentagon'', ''war'', ''russia'',
                    ''china'', ''nuclear'', ''terrorism'', ''shooting'', ''bomb'', ''coup''],
        tier_score = 10\<rparr>),
      (''high'',
       \<lparr>tier_keywords = [''economy'', ''inflation'', ''federal reserve'', ''stock market'', ''unemployment'',
                    ''gas prices'', ''nato'', ''military'', ''fbi'', ''justice department'', ''governor'',
                    ''mayor'', ''law'', ''bill'', ''impeach'', ''investigation''],
        tier_score = 7\<rparr>),
      (''medium'',
       \<lparr>tier_keywords = [''sports'', ''nfl'', ''nba'', ''super bowl'', ''olympics'', ''technology'', ''apple'',
                    ''google'', ''meta'', ''tesla'', ''space'', ''nasa'', ''health'', ''covid'', ''weather'',
                    ''hurricane'', ''earthquake'', ''wildfire''],
        tier_score = 5\<rparr>)]"

definition US_KEYWORDS :: "string list" where
  "US_KEYWORDS =
     [''usa'', ''u.s.'', ''united states'', ''america'', ''american'', ''washington'', ''new york'',
      ''california'', ''texas'', ''florida'', ''biden'', ''trump'', ''congress'', ''senate'', ''house'',
      ''governor'', ''mayor'', ''state'', ''federal'', ''fbi'', ''cia'', ''pentagon'', ''white house'']"

definition EXCLUSION_KEYWORDS :: "string list" where
  "EXCLUSION_KEYWORDS =
     [''kardashian'', ''celebrity'', ''hollywood'', ''gossip'', ''dating'', ''relationship'',
      ''instagram model'', ''tiktok'', ''viral video'', ''meme'', ''horoscope'', ''zodiac'',
      ''quiz'', ''sponsored'', ''advertisement'']"

definition CATEGORY_KEYWORDS :: "(string \<times> string list) list" where
  "CATEGORY_KEYWORDS =
     [(''Politics'', [''president'', ''congress'', ''senate'', ''election'', ''vote'', ''bill'', ''law'',
                      ''politics'', ''biden'', ''trump'', ''governor'', ''democrat'', ''republican'']),
      (''Economy'', [''economy'', ''inflation'', ''stock'', ''market'', ''fed'', ''federal reserve'',
                     ''unemployment'', ''jobs'', ''gdp'', ''recession'', ''trade'']),
      (''Technology'', [''tech'', ''technology'', ''ai'', ''artificial intelligence'', ''apple'', ''google'',
                        ''meta'', ''tesla'', ''space'', ''nasa'', ''innovation'']),
      (''Sports'', [''nfl'', ''nba'', ''mlb'', ''nhl'', ''super bowl'', ''world series'', ''olympics'',
                    ''sports'', ''game'', ''championship'']),
      (''Justice'', [''crime'', ''shooting'', ''court'', ''supreme court'', ''justice'', ''police'',
                     ''trial'', ''verdict'', ''fbi'', ''investigation'']),
      (''International'', [''war'', ''russia'', ''china'', ''ukraine'', ''nato'', ''military'', ''conflict'',
                           ''foreign policy'', ''diplomacy'']),
      (''Health'', [''health'', ''covid'', ''pandemic'', ''vaccine'', ''hospital'', ''medical'']),
      (''Environment'', [''climate'', ''weather'', ''hurricane'', ''wildfire'', ''earthquake'', ''flood'',
                         ''environment'', ''epa''])]"

definition ARCHIVE_DAYS :: int where
  "ARCHIVE_DAYS = 7"

definition MAX_STORIES_PER_DAY :: int where
  "MAX_STORIES_PER_DAY = 5"

section \<open>Scorer, classifier and filters (rss\_collector.py)\<close>

text \<open>
  \<^verbatim>\<open>_calculate_priority\<close>: the two nested loops.  The inner loop adds the tier's
  score once for every keyword of the tier that passes the test \<^verbatim>\<open>keyword in text\<close>.
\<close>

fun tier_loop :: "string \<Rightarrow> int \<Rightarrow> string list \<Rightarrow> int \<Rightarrow> int" where
  "tier_loop text w [] acc = acc"
| "tier_loop text w (keyword # rest) acc =
     tier_loop text w rest (if sublist keyword text then acc + w else acc)"

fun priority_loop :: "string \<Rightarrow> (string \<times> tier) list \<Rightarrow> int \<Rightarrow> int" where
  "priority_loop text [] acc = acc"
| "priority_loop text ((level, data) # rest) acc =
     priority_loop text rest (tier_loop text (tier_score data) (tier_keywords data) acc)"

definition calculate_priority :: "string \<Rightarrow> string \<Rightarrow> int" where
  "calculate_priority title description =
     (let text = lower (title @ '' '' @ description)
      in priority_loop text PRIORITY_KEYWORDS 0)"

text \<open>\<^verbatim>\<open>_is_us_related\<close> and \<^verbatim>\<open>_should_exclude\<close>.\<close>

definition is_us_related_text :: "string \<Rightarrow> bool" where
  "is_us_related_text text = (let text_lower = lower text in list_ex (\<lambda>keyword. sublist keyword text_lower) US_KEYWORDS)"

definition should_exclude :: "string \<Rightarrow> bool" where
  "should_exclude text = (let text_lower = lower text in list_ex (\<lambda>keyword. sublist keyword text_lower) EXCLUSION_KEYWORDS)"

text \<open>
  \<^verbatim>\<open>_detect_category\<close>.  \<^verbatim>\<open>category_scores\<close> is a dict filled in the order of
  \<^verbatim>\<open>CATEGORY_KEYWORDS\<close>, whose keys are distinct, so it is the association list of
  the categories with a positive count, in declaration order.  Python's
  \<^verbatim>\<open>max(d, key=d.get)\<close> walks the keys in that order and replaces its best
  only by a strictly larger one.
\<close>

definition keyword_count :: "string list \<Rightarrow> string \<Rightarrow> nat" where
  "keyword_count kws text = length (filter (\<lambda>keyword. sublist keyword text) kws)"

fun category_scores :: "(string \<times> string list) list \<Rightarrow> string \<Rightarrow> (string \<times> nat) list" where
  "category_scores [] text = []"
| "category_scores ((category, kws) # rest) text =
     (let count = keyword_count kws text
      in if count > 0 then (category, count) # category_scores rest text
         else category_scores rest text)"

fun max_key :: "string \<times> nat \<Rightarrow> (string \<times> nat) list \<Rightarrow> string \<times> nat" where
  "max_key best [] = best"
| "max_key best (x # xs) = max_key (if snd x > snd best then x else best) xs"

definition detect_category :: "string \<Rightarrow> string \<Rightarrow> string" where
  "detect_category title description =
     (let text = lower (title @ '' '' @ description)
      in case category_scores CATEGORY_KEYWORDS text of
           [] \<Rightarrow> ''General''
         | first # rest \<Rightarrow> fst (max_key first rest))"


text \<open>
  \<^verbatim>\<open>_generate_hash\<close>.  The digest \<^verbatim>\<open>hashlib.md5(s.encode()).hexdigest()\<close> is library
  code; it enters as the parameter \<open>md5\<close>, an arbitrary function from texts to
  digests.
\<close>

definition generate_hash :: "(string \<Rightarrow> string) \<Rightarrow> string \<Rightarrow> string \<Rightarrow> string" where
  "generate_hash md5 title link = (let combined = lower (title @ ''|'' @ link) in md5 combined)"

section \<open>The articles table\<close>

text \<open>
  Time stamps are \<^verbatim>\<open>datetime.now().isoformat()\<close> texts, which SQLite compares as
  texts; their order is the order of the instants, so an instant is the integer number of
  microseconds since a fixed origin.  \<^verbatim>\<open>published_time\<close> holds either the feed's
  own text or such an instant.
\<close>

datatype time_text = Feed string | Now int

definition hours_delta :: "int \<Rightarrow> int" where
  "hours_delta h = h * 3600000000"

definition days_delta :: "int \<Rightarrow> int" where
  "days_delta d = d * 86400000000"

text \<open>
  One row of \<^verbatim>\<open>articles\<close>, column by column; the column \<^verbatim>\<open>id\<close> is
  \<open>row_id\<close>, and the 0/1 columns are booleans.
\<close>

record article =
  row_id :: nat
  article_hash :: string
  title :: string
  description :: string
  link :: string
  source :: string
  category :: string
  published_time :: time_text
  collected_time :: int
  priority_score :: int
  is_us_related :: bool
  is_excluded :: bool
  selected_for_post :: bool
  posted :: bool

text \<open>
  The database: the rows of the table in rowid order, and the counter that
  \<^verbatim>\<open>AUTOINCREMENT\<close> keeps in \<^verbatim>\<open>sqlite_sequence\<close>.  A new rowid is one more than
  the largest rowid ever handed out.
\<close>

record store =
  rows :: "article list"
  seq :: nat

definition empty_store :: store where
  "empty_store = \<lparr>rows = [], seq = 0\<rparr>"

definition next_rowid :: "store \<Rightarrow> nat" where
  "next_rowid s = Suc (max (seq s) (foldr max (map row_id (rows s)) 0))"

text \<open>
  The lifecycle state of the specification, read off the two flags: a row with
  \<^verbatim>\<open>posted = 1\<close> is Posted, otherwise \<^verbatim>\<open>selected_for_post\<close> tells Selected from
  Unselected.
\<close>

datatype selection_state = Unselected | Selected | Posted

definition state_of :: "article \<Rightarrow> selection_state" where
  "state_of r = (if posted r then Posted else if selected_for_post r then Selected else Unselected)"

section \<open>Collector (rss\_collector.py)\<close>

text \<open>
  \<^verbatim>\<open>INSERT OR IGNORE INTO articles (...) VALUES (...)\<close> under the constraint
  \<^verbatim>\<open>article_hash TEXT UNIQUE\<close>: a row whose hash is already stored is dropped, and
  \<^verbatim>\<open>rowcount\<close> is 0; otherwise the row is appended with the defaults
  \<^verbatim>\<open>selected_for_post = 0\<close>, \<^verbatim>\<open>posted = 0\<close>, and \<^verbatim>\<open>rowcount\<close> is 1.  SQLite
  draws the rowid before it checks the constraint, so the counter advances in both cases.
\<close>

definition insert_or_ignore ::
  "string \<Rightarrow> string \<Rightarrow> string \<Rightarrow> string \<Rightarrow> string \<Rightarrow> string \<Rightarrow> time_text \<Rightarrow> int \<Rightarrow> int
     \<Rightarrow> bool \<Rightarrow> bool \<Rightarrow> store \<Rightarrow> store \<times> nat" where
  "insert_or_ignore h ttl descr lnk src cat pub col prio us excl s =
     (let rid = next_rowid s
      in if list_ex (\<lambda>r. article_hash r = h) (rows s)
         then (s\<lparr>seq := rid\<rparr>, 0)
         else (s\<lparr>rows := rows s @
                    [\<lparr>row_id = rid, article_hash = h, title = ttl, description = descr,
                      link = lnk, source = src, category = cat, published_time = pub,
                      collected_time = col, priority_score = prio, is_us_related = us,
                      is_excluded = excl, selected_for_post = False, posted = False\<rparr>],
                  seq := rid\<rparr>, 1))"

text \<open>
  The body of the loop of \<^verbatim>\<open>collect_feed\<close> from \<^verbatim>\<open># Generate hash\<close> on, for an
  entry that passed the check on title and link: the upsert of the specification.  The
  result is the new store and \<^verbatim>\<open>cursor.rowcount\<close>.  \<open>now\<close> is the clock.
\<close>

definition upsert ::
  "(string \<Rightarrow> string) \<Rightarrow> string \<Rightarrow> int \<Rightarrow> string \<Rightarrow> string \<Rightarrow> string \<Rightarrow> string
     \<Rightarrow> store \<Rightarrow> store \<times> nat" where
  "upsert md5 source_name now ttl descr lnk published s =
     (let h = generate_hash md5 ttl lnk;
          full_text = ttl @ '' '' @ descr;
          is_us = is_us_related_text full_text;
          is_excl = should_exclude full_text;
          prio = calculate_priority ttl descr;
          cat = detect_category ttl descr;
          pub = (if published = [] then Now now else Feed published)
      in insert_or_ignore h ttl descr lnk source_name cat pub now prio is_us is_excl s)"

text \<open>
  A parsed feed entry, with \<^verbatim>\<open>''\<close> for a key that \<^verbatim>\<open>entry.get\<close> does not find.
\<close>

record entry =
  entry_title :: string
  entry_description :: string
  entry_summary :: string
  entry_link :: string
  entry_published :: string
  entry_updated :: string

definition collect_entry ::
  "(string \<Rightarrow> string) \<Rightarrow> string \<Rightarrow> int \<Rightarrow> entry \<Rightarrow> store \<Rightarrow> store \<times> nat" where
  "collect_entry md5 source_name now e s =
     (let ttl = strip (entry_title e);
          descr = (if entry_description e \<noteq> [] then entry_description e else entry_summary e);
          lnk = strip (entry_link e)
      in if ttl = [] \<or> lnk = [] then (s, 0)
         else upsert md5 source_name now ttl descr lnk
                (if entry_published e \<noteq> [] then entry_published e else entry_updated e) s)"

text \<open>
  \<^verbatim>\<open>collect_feed\<close>: the loop over the entries that \<^verbatim>\<open>feedparser.parse\<close> returned,
  each with the clock reading at its turn; the result is the store and
  \<^verbatim>\<open>added_count\<close>.
\<close>

fun collect_feed ::
  "(string \<Rightarrow> string) \<Rightarrow> string \<Rightarrow> (int \<times> entry) list \<Rightarrow> store \<Rightarrow> nat \<Rightarrow> store \<times> nat" where
  "collect_feed md5 source_name [] s added_count = (s, added_count)"
| "collect_feed md5 source_name ((now, e) # rest) s added_count =
     (case collect_entry md5 source_name now e s of
        (s', rowcount) \<Rightarrow>
          collect_feed md5 source_name rest s'
            (if rowcount > 0 then added_count + 1 else added_count))"

text \<open>
  \<^verbatim>\<open>_clean_old_articles\<close>:
  \<^verbatim>\<open>DELETE FROM articles WHERE collected_time < ? AND posted = 0\<close>.
\<close>

definition delete_old :: "int \<Rightarrow> store \<Rightarrow> store" where
  "delete_old cutoff_date s =
     s\<lparr>rows := filter (\<lambda>r. \<not> (collected_time r < cutoff_date \<and> \<not> posted r)) (rows s)\<rparr>"

definition clean_old_articles :: "int \<Rightarrow> store \<Rightarrow> store" where
  "clean_old_articles now s = (let cutoff_date = now - days_delta ARCHIVE_DAYS in delete_old cutoff_date s)"

section \<open>Ranker (news\_ranker.py)\<close>

text \<open>
  The candidate query.  \<open>eligible\<close> is its \<^verbatim>\<open>WHERE\<close> clause; the order is
  \<^verbatim>\<open>priority_score DESC, collected_time DESC\<close>, rows that agree on both staying in
  rowid order; \<^verbatim>\<open>LIMIT 50\<close> keeps the first fifty.
\<close>

definition eligible :: "int \<Rightarrow> store \<Rightarrow> article list" where
  "eligible cutoff_time s =
     filter (\<lambda>r. is_us_related r \<and> \<not> is_excluded r \<and> \<not> selected_for_post r
                  \<and> collected_time r \<ge> cutoff_time) (rows s)"

definition query_candidates :: "int \<Rightarrow> store \<Rightarrow> article list" where
  "query_candidates cutoff_time s =
     take 50 (sort_key (\<lambda>r. - priority_score r)
               (sort_key (\<lambda>r. - collected_time r) (eligible cutoff_time s)))"

text \<open>
  The first part of \<^verbatim>\<open>get_top_stories\<close>, up to \<^verbatim>\<open>conn.close()\<close>: the query
  over the last \<open>hours\<close> hours and, when it finds nothing, the query over the last 48
  hours.  The two readings of the clock are taken as the one instant \<open>now\<close>.
\<close>

definition fetch_candidates :: "int \<Rightarrow> int \<Rightarrow> store \<Rightarrow> article list" where
  "fetch_candidates hours now s =
     (let candidates = query_candidates (now - hours_delta hours) s
      in if candidates = [] then query_candidates (now - hours_delta 48) s else candidates)"

text \<open>
  \<^verbatim>\<open>_select_diverse_stories\<close>.  The first loop either returns from the function
  (\<open>Inl\<close>) or runs to its end (\<open>Inr\<close>); the second loop pops from the front of
  \<open>remaining\<close>.  \<^verbatim>\<open>a not in selected\<close> compares whole rows.
\<close>

fun first_pass ::
  "article list \<Rightarrow> int \<Rightarrow> article list \<Rightarrow> string set \<Rightarrow> article list + article list" where
  "first_pass [] count selected used_categories = Inr selected"
| "first_pass (a # rest) count selected used_categories =
     (if category a \<notin> used_categories
      then (if int (length (selected @ [a])) \<ge> count then Inl (selected @ [a])
            else first_pass rest count (selected @ [a]) (insert (category a) used_categories))
      else first_pass rest count selected used_categories)"

fun second_pass :: "article list \<Rightarrow> article list \<Rightarrow> int \<Rightarrow> article list" where
  "second_pass selected [] count = selected"
| "second_pass selected (a # remaining) count =
     (if int (length selected) < count then second_pass (selected @ [a]) remaining count
      else selected)"

definition select_diverse_stories :: "article list \<Rightarrow> int \<Rightarrow> article list" where
  "select_diverse_stories candidates count =
     (if int (length candidates) \<le> count then candidates
      else case first_pass candidates count [] {} of
             Inl selected \<Rightarrow> selected
           | Inr selected \<Rightarrow>
               (let remaining = filter (\<lambda>a. a \<notin> set selected) candidates;
                    remaining = sort_key (\<lambda>x. - priority_score x) remaining
                in second_pass selected remaining count))"

text \<open>
  \<^verbatim>\<open>_mark_as_selected\<close>, \<^verbatim>\<open>mark_as_posted\<close> and \<^verbatim>\<open>reset_selections\<close>: one
  \<^verbatim>\<open>UPDATE\<close> each.  An empty \<^verbatim>\<open>IN ()\<close> list matches no row.
\<close>

definition mark_as_selected :: "nat list \<Rightarrow> store \<Rightarrow> store" where
  "mark_as_selected article_ids s =
     s\<lparr>rows := map (\<lambda>r. if row_id r \<in> set article_ids then r\<lparr>selected_for_post := True\<rparr> else r) (rows s)\<rparr>"

definition mark_as_posted :: "nat list \<Rightarrow> store \<Rightarrow> store" where
  "mark_as_posted article_ids s =
     s\<lparr>rows := map (\<lambda>r. if row_id r \<in> set article_ids then r\<lparr>posted := True\<rparr> else r) (rows s)\<rparr>"

definition reset_selections :: "store \<Rightarrow> store" where
  "reset_selections s =
     s\<lparr>rows := map (\<lambda>r. if \<not> posted r then r\<lparr>selected_for_post := False\<rparr> else r) (rows s)\<rparr>"

text \<open>
  \<^verbatim>\<open>get_top_stories\<close> works on the database twice, on a connection of its own each
  time: \<open>select_phase\<close> reads (lines 26 to 65), \<open>mark_phase\<close> writes (lines 68 and
  69).  The result is the selected rows as they were read, and the store after the
  marking.
\<close>

definition select_phase :: "int \<Rightarrow> int \<Rightarrow> int \<Rightarrow> store \<Rightarrow> article list" where
  "select_phase count hours now s = select_diverse_stories (fetch_candidates hours now s) count"

definition mark_phase :: "article list \<Rightarrow> store \<Rightarrow> store" where
  "mark_phase selected s = (if selected \<noteq> [] then mark_as_selected (map row_id selected) s else s)"

definition get_top_stories :: "int \<Rightarrow> int \<Rightarrow> int \<Rightarrow> store \<Rightarrow> article list \<times> store" where
  "get_top_stories count hours now s =
     (let selected = select_phase count hours now s in (selected, mark_phase selected s))"

section \<open>Auxiliary notions for the statements\<close>

text \<open>
  The cutoff of the window that the candidates of \<^verbatim>\<open>get_top_stories\<close> come from: that
  of the given window, or of the 48-hour window when the given one holds no eligible row.
\<close>

definition window_cutoff :: "int \<Rightarrow> int \<Rightarrow> store \<Rightarrow> int" where
  "window_cutoff hours now s =
     (if eligible (now - hours_delta hours) s = [] then now - hours_delta 48
      else now - hours_delta hours)"

text \<open>
  \<open>firsts cs used\<close>: the rows of \<open>cs\<close>, in order, that are the first of their category
  in \<open>cs\<close>, for the categories outside \<open>used\<close>.  It describes what the first loop of
  \<^verbatim>\<open>_select_diverse_stories\<close> collects.
\<close>

fun firsts :: "article list \<Rightarrow> string set \<Rightarrow> article list" where
  "firsts [] used = []"
| "firsts (a # rest) used =
     (if category a \<in> used then firsts rest used
      else a # firsts rest (insert (category a) used))"

text \<open>
  The scorer as the specification words it: every occurrence of a keyword counts, overlapping
  ones too.  \<open>occurrences keyword text\<close> is the number of positions of \<open>text\<close> at which
  \<open>keyword\<close> starts.
\<close>

fun occurrences :: "string \<Rightarrow> string \<Rightarrow> nat" where
  "occurrences keyword [] = (if keyword = [] then 1 else 0)"
| "occurrences keyword (c # cs) = (if prefix keyword (c # cs) then 1 else 0) + occurrences keyword cs"

definition spec_occurrence_score :: "string \<Rightarrow> string \<Rightarrow> int" where
  "spec_occurrence_score ttl descr =
     (let text = lower (ttl @ '' '' @ descr)
      in \<Sum>(level, data)\<leftarrow>PRIORITY_KEYWORDS.
           tier_score data * (\<Sum>keyword\<leftarrow>tier_keywords data. int (occurrences keyword text)))"

text \<open>
  The Selector's candidate step as the specification words it: the retry doubles the
  window it was given.
\<close>

definition spec_fetch_candidates_doubled :: "int \<Rightarrow> int \<Rightarrow> store \<Rightarrow> article list" where
  "spec_fetch_candidates_doubled hours now s =
     (let candidates = query_candidates (now - hours_delta hours) s
      in if candidates = [] then query_candidates (now - hours_delta (2 * hours)) s else candidates)"

text \<open>
  Two invocations of \<^verbatim>\<open>get_top_stories\<close> (from two processes on the same database
  file) that overlap: both run their read before either runs its write.  The result is what
  each invocation returns, and the store after both writes.
\<close>

definition overlapping_invocations ::
  "int \<Rightarrow> int \<Rightarrow> int \<Rightarrow> store \<Rightarrow> article list \<times> article list \<times> store" where
  "overlapping_invocations count hours now s =
     (let selected_a = select_phase count hours now s;
          selected_b = select_phase count hours now s
      in (selected_a, selected_b, mark_phase selected_b (mark_phase selected_a s)))"

text \<open>Concrete stores for the examples: every row is US-related and not excluded.\<close>

definition example_article :: "nat \<Rightarrow> string \<Rightarrow> int \<Rightarrow> int \<Rightarrow> bool \<Rightarrow> bool \<Rightarrow> article" where
  "example_article i cat prio col sel pst =
     \<lparr>row_id = i, article_hash = replicate i CHR ''x'', title = ''t'', description = ''d'',
      link = ''l'', source = ''CNN'', category = cat, published_time = Now col,
      collected_time = col, priority_score = prio, is_us_related = True,
      is_excluded = False, selected_for_post = sel, posted = pst\<rparr>"

text \<open>
  Scenario 2 of the specification: Politics with scores 20, 15, 10 and Sports with scores
  12, 8.
\<close>

definition scenario_store :: store where
  "scenario_store =
     \<lparr>rows = [example_article 1 ''Politics'' 20 0 False False,
              example_article 2 ''Politics'' 15 0 False False,
              example_article 3 ''Politics'' 10 0 False False,
              example_article 4 ''Sports'' 12 0 False False,
              example_article 5 ''Sports'' 8 0 False False],
      seq = 5\<rparr>"

text \<open>Fifty Politics rows of score 10 and one Sports row of score 0, all fresh.\<close>

definition crowded_store :: store where
  "crowded_store =
     \<lparr>rows = map (\<lambda>i. example_article i ''Politics'' 10 0 False False) [1..<51]
             @ [example_article 51 ''Sports'' 0 0 False False],
      seq = 51\<rparr>"

text \<open>One fresh Unselected row.\<close>

definition single_store :: store where
  "single_store = \<lparr>rows = [example_article 1 ''Politics'' 10 0 False False], seq = 1\<rparr>"

text \<open>
  One Unselected row collected 30 hours before the instant \<open>hours_delta 100\<close>.
\<close>

definition stale_store :: store where
  "stale_store = \<lparr>rows = [example_article 1 ''Politics'' 10 (hours_delta 70) False False], seq = 1\<rparr>"

text \<open>
  Scenario 1: the entry \<^verbatim>\<open>Senate Passes Bill\<close> ingested into the empty store, with the
  identity standing for the digest.
\<close>

definition senate_store :: store where
  "senate_store =
     fst (upsert (\<lambda>x. x) ''CNN'' 100 ''Senate Passes Bill'' ''The vote was close'' ''http://example.com/a''
            [] empty_store)"

text \<open>
  Scenarios 4 and 5: row 1 is Posted, row 2 Selected, row 3 Unselected; all three were
  collected at instant 0.
\<close>

definition lifecycle_store :: store where
  "lifecycle_store =
     \<lparr>rows = [example_article 1 ''Politics'' 10 0 True True,
              example_article 2 ''Sports'' 5 0 True False,
              example_article 3 ''Health'' 5 0 False False],
      seq = 3\<rparr>"

section \<open>The scorer\<close>

lemma tier_loop_eq: "tier_loop text w kws acc = acc + w * int (keyword_count kws text)"
  by (induction kws arbitrary: acc) (simp_all add: keyword_count_def algebra_simps)

lemma priority_loop_eq:
  "priority_loop text tiers acc =
     acc + (\<Sum>(level, data)\<leftarrow>tiers. tier_score data * int (keyword_count (tier_keywords data) text))"
  by (induction tiers arbitrary: acc) (auto simp: tier_loop_eq)

lemma keyword_count_le: "keyword_count kws text \<le> length kws"
  by (simp add: keyword_count_def)

text \<open>
  Claim C2, as amended.  For every title and description the score is the sum over the tiers
  of the tier's weight times the number of keywords of the tier that occur in the lower-cased
  text \<open>title description\<close> at least once: a keyword that occurs several times counts
  once.  So the score lies between 0 and 382, which is 10 times 18 plus 7 times 16 plus 5
  times 18.  Being a function of the text and the tier table, it is deterministic.
\<close>

theorem calculate_priority_counts_keywords:
  "calculate_priority t d =
     (\<Sum>(level, data)\<leftarrow>PRIORITY_KEYWORDS.
        tier_score data * int (keyword_count (tier_keywords data) (lower (t @ '' '' @ d))))
   \<and> 0 \<le> calculate_priority t d
   \<and> calculate_priority t d \<le> 382"
proof -
  let ?text = "lower (t @ '' '' @ d)"
  have eq: "calculate_priority t d =
     (\<Sum>(level, data)\<leftarrow>PRIORITY_KEYWORDS.
        tier_score data * int (keyword_count (tier_keywords data) ?text))"
    by (simp add: calculate_priority_def priority_loop_eq)
  have c: "keyword_count (tier_keywords (snd (PRIORITY_KEYWORDS ! 0))) ?text \<le> 18"
    using keyword_count_le [of "tier_keywords (snd (PRIORITY_KEYWORDS ! 0))" ?text]
    by (simp add: PRIORITY_KEYWORDS_def)
  have h: "keyword_count (tier_keywords (snd (PRIORITY_KEYWORDS ! 1))) ?text \<le> 16"
    using keyword_count_le [of "tier_keywords (snd (PRIORITY_KEYWORDS ! 1))" ?text]
    by (simp add: PRIORITY_KEYWORDS_def)
  have m: "keyword_count (tier_keywords (snd (PRIORITY_KEYWORDS ! 2))) ?text \<le> 18"
    using keyword_count_le [of "tier_keywords (snd (PRIORITY_KEYWORDS ! 2))" ?text]
    by (simp add: PRIORITY_KEYWORDS_def)
  have "calculate_priority t d =
          10 * int (keyword_count (tier_keywords (snd (PRIORITY_KEYWORDS ! 0))) ?text)
        + 7 * int (keyword_count (tier_keywords (snd (PRIORITY_KEYWORDS ! 1))) ?text)
        + 5 * int (keyword_count (tier_keywords (snd (PRIORITY_KEYWORDS ! 2))) ?text)"
    unfolding eq by (simp add: PRIORITY_KEYWORDS_def)
  with c h m have "0 \<le> calculate_priority t d \<and> calculate_priority t d \<le> 382"
    by linarith
  with eq show ?thesis by blast
qed

text \<open>
  Claim C2 as stated fails: on the title \<^verbatim>\<open>war\<close> with the description \<^verbatim>\<open>war\<close>
  the keyword \<^verbatim>\<open>war\<close> of the tier of weight 10 occurs twice, so the sum the claim
  describes is 20; the code returns 10.
\<close>

theorem calculate_priority_counterexample:
  "calculate_priority ''war'' ''war'' = 10 \<and> spec_occurrence_score ''war'' ''war'' = 20"
  by code_simp

section \<open>The classifier\<close>

lemma max_key_first_max:
  "\<exists>pre post. best # xs = pre @ max_key best xs # post
      \<and> (\<forall>y\<in>set pre. snd y < snd (max_key best xs))
      \<and> (\<forall>y\<in>set post. snd y \<le> snd (max_key best xs))"
proof (induction xs arbitrary: best)
  case Nil
  have "[best] = [] @ max_key best [] # []
      \<and> (\<forall>y\<in>set []. snd y < snd (max_key best []))
      \<and> (\<forall>y\<in>set []. snd y \<le> snd (max_key best []))" by simp
  then show ?case by blast
next
  case (Cons x xs)
  show ?case
  proof (cases "snd x > snd best")
    case True
    then have mk: "max_key best (x # xs) = max_key x xs" by simp
    from Cons.IH [of x] obtain pre post where d: "x # xs = pre @ max_key x xs # post"
      and lt: "\<forall>y\<in>set pre. snd y < snd (max_key x xs)"
      and le: "\<forall>y\<in>set post. snd y \<le> snd (max_key x xs)" by blast
    have "snd x \<le> snd (max_key x xs)"
    proof (cases pre)
      case Nil
      from d have "x # xs = max_key x xs # post" unfolding Nil by (simp only: append_Nil)
      then show ?thesis by (metis list.inject order_refl)
    next
      case (Cons p ps)
      from d have "x # xs = p # (ps @ max_key x xs # post)" unfolding Cons by (simp only: append_Cons)
      then have "x = p" by (metis list.inject)
      with lt Cons show ?thesis by auto
    qed
    with True have "snd best < snd (max_key x xs)" by simp
    with lt have l: "\<forall>y\<in>set (best # pre). snd y < snd (max_key x xs)" by simp
    have e: "best # x # xs = (best # pre) @ max_key x xs # post"
      by (simp only: append_Cons d [symmetric])
    from e l le show ?thesis unfolding mk by blast
  next
    case False
    then have mk: "max_key best (x # xs) = max_key best xs" by simp
    from Cons.IH [of best] obtain pre post where d: "best # xs = pre @ max_key best xs # post"
      and lt: "\<forall>y\<in>set pre. snd y < snd (max_key best xs)"
      and le: "\<forall>y\<in>set post. snd y \<le> snd (max_key best xs)" by blast
    show ?thesis
    proof (cases pre)
      case Nil
      from d have "best # xs = max_key best xs # post" unfolding Nil by (simp only: append_Nil)
      then have mb: "max_key best xs = best" and xp: "xs = post" by (metis list.inject)+
      from False le have l: "\<forall>y\<in>set (x # post). snd y \<le> snd (max_key best xs)"
        unfolding mb by auto
      have e: "best # x # xs = [] @ max_key best xs # (x # post)"
        using mb xp by (metis append_Nil)
      have "\<forall>y\<in>set []. snd y < snd (max_key best xs)" by simp
      with e l show ?thesis unfolding mk by blast
    next
      case (Cons p ps)
      from d have "best # xs = p # (ps @ max_key best xs # post)"
        unfolding Cons by (simp only: append_Cons)
      then have p: "p = best" and xs: "xs = ps @ max_key best xs # post" by (metis list.inject)+
      from lt have ltp: "snd best < snd (max_key best xs)" and lps: "\<forall>y\<in>set ps. snd y < snd (max_key best xs)"
        unfolding Cons p by simp_all
      from False ltp have "snd x < snd (max_key best xs)" by simp
      with ltp lps have l: "\<forall>y\<in>set (best # x # ps). snd y < snd (max_key best xs)" by simp
      have e: "best # x # xs = (best # x # ps) @ max_key best xs # post"
        using xs by (metis append_Cons)
      from e l le show ?thesis unfolding mk by blast
    qed
  qed
qed

lemma category_scores_filter:
  "category_scores cfg text =
     filter (\<lambda>p. snd p > 0) (map (\<lambda>(category, kws). (category, keyword_count kws text)) cfg)"
  by (induction cfg) (auto simp: Let_def)

lemma filter_decompose:
  "filter P xs = pre @ r # post \<Longrightarrow>
     \<exists>pre' post'. xs = pre' @ r # post' \<and> filter P pre' = pre \<and> filter P post' = post"
proof (induction xs arbitrary: pre)
  case Nil
  then show ?case by simp
next
  case (Cons x xs)
  show ?case
  proof (cases "P x")
    case False
    with Cons.prems have "filter P xs = pre @ r # post" by simp
    from Cons.IH [OF this] obtain pre' post'
      where "xs = pre' @ r # post'" "filter P pre' = pre" "filter P post' = post" by blast
    with False have "x # xs = (x # pre') @ r # post' \<and> filter P (x # pre') = pre \<and> filter P post' = post"
      by simp
    then show ?thesis by blast
  next
    case True
    show ?thesis
    proof (cases pre)
      case Nil
      with Cons.prems True have "x # xs = [] @ r # xs \<and> filter P [] = pre \<and> filter P xs = post"
        by simp
      then show ?thesis by blast
    next
      case (Cons p ps)
      with Cons.prems True have px: "p = x" and "filter P xs = ps @ r # post" by simp_all
      from Cons.IH [OF this(2)] obtain pre' post'
        where "xs = pre' @ r # post'" "filter P pre' = ps" "filter P post' = post" by blast
      with True Cons px have "x # xs = (x # pre') @ r # post' \<and> filter P (x # pre') = pre \<and> filter P post' = post"
        by simp
      then show ?thesis by blast
    qed
  qed
qed

lemma category_scores_empty:
  "category_scores cfg text = [] \<longleftrightarrow> (\<forall>(category, kws)\<in>set cfg. keyword_count kws text = 0)"
  by (auto simp: category_scores_filter filter_empty_conv)

lemma category_scores_first_max:
  assumes "category_scores cfg text = first # rest"
  shows "\<exists>pre kws post.
           cfg = pre @ (fst (max_key first rest), kws) # post
         \<and> (\<forall>(category', kws')\<in>set pre. keyword_count kws' text < keyword_count kws text)
         \<and> (\<forall>(category', kws')\<in>set post. keyword_count kws' text \<le> keyword_count kws text)"
proof -
  let ?f = "\<lambda>(category, kws). (category, keyword_count kws text)"
  let ?m = "max_key first rest"
  obtain pre post where d: "first # rest = pre @ ?m # post"
    and lt: "\<forall>y\<in>set pre. snd y < snd ?m" and le: "\<forall>y\<in>set post. snd y \<le> snd ?m"
    using max_key_first_max [of first rest] by blast
  from d assms have f: "filter (\<lambda>p. snd p > 0) (map ?f cfg) = pre @ ?m # post"
    by (simp add: category_scores_filter)
  from filter_decompose [OF f] obtain pre' post'
    where all: "map ?f cfg = pre' @ ?m # post'"
      and fpre: "filter (\<lambda>p. snd p > 0) pre' = pre"
      and fpost: "filter (\<lambda>p. snd p > 0) post' = post" by blast
  have "?m \<in> set (filter (\<lambda>p. snd p > 0) (map ?f cfg))"
    unfolding f by simp
  then have pos: "0 < snd ?m" by simp
  have lt': "snd y < snd ?m" if "y \<in> set pre'" for y
  proof (cases "snd y > 0")
    case True
    with that fpre have "y \<in> set pre" by auto
    with lt show ?thesis by blast
  next
    case False
    with pos show ?thesis by simp
  qed
  have le': "snd y \<le> snd ?m" if "y \<in> set post'" for y
  proof (cases "snd y > 0")
    case True
    with that fpost have "y \<in> set post" by auto
    with le show ?thesis by blast
  next
    case False
    then show ?thesis by simp
  qed
  from all obtain cpre c cpost where cfg: "cfg = cpre @ c # cpost"
    and mpre: "map ?f cpre = pre'" and mc: "?f c = ?m" and mpost: "map ?f cpost = post'"
    by (auto simp: map_eq_append_conv map_eq_Cons_conv)
  obtain cname ckws where c: "c = (cname, ckws)" by (cases c)
  have "?m = ?f c" using mc by (rule sym)
  then have fst_m: "fst ?m = cname" and snd_m: "snd ?m = keyword_count ckws text"
    unfolding c by simp_all
  have "\<forall>(category', kws')\<in>set cpre. keyword_count kws' text < keyword_count ckws text"
  proof (clarify)
    fix a b assume "(a, b) \<in> set cpre"
    then have "?f (a, b) \<in> ?f ` set cpre" by (rule imageI)
    then have "?f (a, b) \<in> set (map ?f cpre)" by (simp only: set_map)
    then have "?f (a, b) \<in> set pre'" by (simp only: mpre)
    from lt' [OF this] show "keyword_count b text < keyword_count ckws text"
      by (simp add: snd_m)
  qed
  moreover have "\<forall>(category', kws')\<in>set cpost. keyword_count kws' text \<le> keyword_count ckws text"
  proof (clarify)
    fix a b assume "(a, b) \<in> set cpost"
    then have "?f (a, b) \<in> ?f ` set cpost" by (rule imageI)
    then have "?f (a, b) \<in> set (map ?f cpost)" by (simp only: set_map)
    then have "?f (a, b) \<in> set post'" by (simp only: mpost)
    from le' [OF this] show "keyword_count b text \<le> keyword_count ckws text"
      by (simp add: snd_m)
  qed
  ultimately show ?thesis using cfg c fst_m by blast
qed

text \<open>
  Claim C8.  For every title and description: when no keyword of any category occurs in the
  lower-cased text, the classifier returns \<^verbatim>\<open>General\<close>; otherwise it returns a category
  of the configuration whose count of keywords present in the text is strictly larger than
  the count of every category declared before it and at least the count of every category
  declared after it, that is, the earliest declared category among those of highest count.
\<close>

theorem detect_category_highest_count:
  "if \<forall>(category, kws)\<in>set CATEGORY_KEYWORDS.
         keyword_count kws (lower (t @ '' '' @ d)) = 0
   then detect_category t d = ''General''
   else \<exists>pre kws post.
          CATEGORY_KEYWORDS = pre @ (detect_category t d, kws) # post
        \<and> (\<forall>(category', kws')\<in>set pre.
              keyword_count kws' (lower (t @ '' '' @ d))
                < keyword_count kws (lower (t @ '' '' @ d)))
        \<and> (\<forall>(category', kws')\<in>set post.
              keyword_count kws' (lower (t @ '' '' @ d))
                \<le> keyword_count kws (lower (t @ '' '' @ d)))"
proof (cases "category_scores CATEGORY_KEYWORDS (lower (t @ '' '' @ d))")
  case Nil
  then have all0: "\<forall>(category, kws)\<in>set CATEGORY_KEYWORDS.
         keyword_count kws (lower (t @ '' '' @ d)) = 0"
    by (simp only: category_scores_empty)
  have g: "detect_category t d = ''General''"
    using Nil by (simp add: detect_category_def)
  show ?thesis by (subst if_P [OF all0]) (fact g)
next
  case (Cons first rest)
  have ne: "\<not> (\<forall>(category, kws)\<in>set CATEGORY_KEYWORDS.
         keyword_count kws (lower (t @ '' '' @ d)) = 0)"
  proof
    assume "\<forall>(category, kws)\<in>set CATEGORY_KEYWORDS.
         keyword_count kws (lower (t @ '' '' @ d)) = 0"
    then have "category_scores CATEGORY_KEYWORDS (lower (t @ '' '' @ d)) = []"
      by (simp only: category_scores_empty)
    with Cons show False by simp
  qed
  have eq: "fst (max_key first rest) = detect_category t d"
    using Cons by (simp add: detect_category_def)
  show ?thesis
    using category_scores_first_max [OF Cons]
    by (subst if_not_P [OF ne]) (simp only: eq)
qed

text \<open>
  Witness for claim C8: a text without any keyword, and the text \<^verbatim>\<open>nfl war\<close>, in which
  Sports and International both count one keyword.
\<close>

theorem detect_category_highest_count_witness:
  "detect_category ''hello'' ''world'' = ''General''
   \<and> detect_category ''nfl'' ''war'' \<in> fst ` set CATEGORY_KEYWORDS"
proof -
  have a: "\<forall>(category, kws)\<in>set CATEGORY_KEYWORDS.
             keyword_count kws (lower (''hello'' @ '' '' @ ''world'')) = 0"
    by code_simp
  have b: "\<not> (\<forall>(category, kws)\<in>set CATEGORY_KEYWORDS.
             keyword_count kws (lower (''nfl'' @ '' '' @ ''war'')) = 0)"
    by code_simp
  have "detect_category ''hello'' ''world'' = ''General''"
    using detect_category_highest_count [of "''hello''" "''world''"]
    unfolding if_P [OF a] .
  moreover have "\<exists>pre kws post. CATEGORY_KEYWORDS = pre @ (detect_category ''nfl'' ''war'', kws) # post"
    using detect_category_highest_count [of "''nfl''" "''war''"]
    unfolding if_not_P [OF b] by blast
  then obtain pre kws post
    where "CATEGORY_KEYWORDS = pre @ (detect_category ''nfl'' ''war'', kws) # post" by blast
  then have "(detect_category ''nfl'' ''war'', kws) \<in> set CATEGORY_KEYWORDS"
    by (metis in_set_conv_decomp)
  then have "detect_category ''nfl'' ''war'' \<in> fst ` set CATEGORY_KEYWORDS"
    by (metis fst_conv imageI)
  ultimately show ?thesis by blast
qed

section \<open>The Selector: count and diversity\<close>

lemma first_pass_firsts:
  "first_pass cs count selected used =
     (let f = firsts cs used; k = max 1 (nat (count - int (length selected)))
      in if k \<le> length f then Inl (selected @ take k f) else Inr (selected @ f))"
proof (induction cs arbitrary: selected used)
  case Nil
  show ?case by simp
next
  case (Cons a rest)
  show ?case
  proof (cases "category a \<in> used")
    case True
    then show ?thesis by (simp add: Cons.IH)
  next
    case False
    show ?thesis
    proof (cases "int (length (selected @ [a])) \<ge> count")
      case True
      then have "max 1 (nat (count - int (length selected))) = 1" by simp
      with True False show ?thesis by (simp add: Let_def)
    next
      case False': False
      define k' where "k' = max 1 (nat (count - int (length (selected @ [a]))))"
      define f' where "f' = firsts rest (insert (category a) used)"
      from False' have k: "max 1 (nat (count - int (length selected))) = Suc k'"
        unfolding k'_def by simp
      from False have ff: "firsts (a # rest) used = a # f'"
        unfolding f'_def by simp
      from False False' have "first_pass (a # rest) count selected used
          = first_pass rest count (selected @ [a]) (insert (category a) used)"
        by simp
      also have "\<dots> = (if k' \<le> length f' then Inl ((selected @ [a]) @ take k' f')
                        else Inr ((selected @ [a]) @ f'))"
        unfolding k'_def f'_def by (simp only: Cons.IH Let_def)
      also have "\<dots> = (if Suc k' \<le> length (a # f') then Inl (selected @ take (Suc k') (a # f'))
                        else Inr (selected @ a # f'))"
        by simp
      finally show ?thesis
        by (simp only: Let_def k ff)
    qed
  qed
qed

lemma second_pass_take:
  "second_pass selected remaining count =
     selected @ take (nat (count - int (length selected))) remaining"
proof (induction remaining arbitrary: selected)
  case Nil
  show ?case by simp
next
  case (Cons a remaining)
  show ?case
  proof (cases "int (length selected) < count")
    case True
    then have "nat (count - int (length selected)) = Suc (nat (count - int (length (selected @ [a]))))"
      by simp
    with True show ?thesis by (simp add: Cons.IH)
  next
    case False
    then show ?thesis by simp
  qed
qed

lemma firsts_subset: "set (firsts cs used) \<subseteq> set cs"
  by (induction cs arbitrary: used) auto

lemma firsts_categories: "category ` set (firsts cs used) = category ` set cs - used"
  by (induction cs arbitrary: used) auto

lemma firsts_distinct_categories: "distinct (map category (firsts cs used))"
  by (induction cs arbitrary: used) (auto simp: firsts_categories)

lemma firsts_first:
  "a \<in> set (firsts cs used) \<Longrightarrow> find (\<lambda>b. category b = category a) cs = Some a"
proof (induction cs arbitrary: used)
  case Nil
  then show ?case by simp
next
  case (Cons c cs)
  show ?case
  proof (cases "category c \<in> used")
    case True
    with Cons.prems have a: "a \<in> set (firsts cs used)" by simp
    then have "category a \<in> category ` set cs - used" unfolding firsts_categories [symmetric] by (rule imageI)
    with True have "category c \<noteq> category a" by auto
    with Cons.IH [OF a] show ?thesis by simp
  next
    case False
    with Cons.prems have "a = c \<or> a \<in> set (firsts cs (insert (category c) used))" by simp
    then show ?thesis
    proof
      assume "a = c" then show ?thesis by simp
    next
      assume a: "a \<in> set (firsts cs (insert (category c) used))"
      then have "category a \<in> category ` set cs - insert (category c) used"
        unfolding firsts_categories [symmetric] by (rule imageI)
      then have "category c \<noteq> category a" by auto
      with Cons.IH [OF a] show ?thesis by simp
    qed
  qed
qed

lemma length_firsts: "length (firsts cs {}) = card (category ` set cs)"
proof -
  have "length (firsts cs {}) = length (map category (firsts cs {}))" by simp
  also have "\<dots> = card (set (map category (firsts cs {})))"
    by (rule distinct_card [symmetric]) (rule firsts_distinct_categories)
  also have "\<dots> = card (category ` set cs)" by (simp add: firsts_categories)
  finally show ?thesis .
qed

lemma firsts_distinct: "distinct (firsts cs used)"
  using firsts_distinct_categories [of cs used] by (simp add: distinct_map)

lemma select_diverse_stories_char:
  "select_diverse_stories c N =
     (if int (length c) \<le> N then c
      else if max 1 (nat N) \<le> length (firsts c {}) then take (max 1 (nat N)) (firsts c {})
      else firsts c {} @
             take (nat (N - int (length (firsts c {}))))
               (sort_key (\<lambda>x. - priority_score x) (filter (\<lambda>a. a \<notin> set (firsts c {})) c)))"
  by (simp add: select_diverse_stories_def first_pass_firsts second_pass_take Let_def)

lemma length_remaining:
  assumes "distinct c"
  shows "length (filter (\<lambda>a. a \<notin> set (firsts c used)) c) = length c - length (firsts c used)"
proof -
  have "length (filter (\<lambda>a. a \<in> set (firsts c used)) c) = card ({a. a \<in> set (firsts c used)} \<inter> set c)"
    using assms by (rule distinct_length_filter)
  also have "{a. a \<in> set (firsts c used)} \<inter> set c = set (firsts c used)"
    using firsts_subset [of c used] by auto
  also have "card (set (firsts c used)) = length (firsts c used)"
    using firsts_distinct by (rule distinct_card)
  finally have "length (filter (\<lambda>a. a \<in> set (firsts c used)) c) = length (firsts c used)" .
  moreover have "length (filter (\<lambda>a. a \<in> set (firsts c used)) c)
      + length (filter (\<lambda>a. \<not> a \<in> set (firsts c used)) c) = length c"
    by (rule sum_length_filter_compl)
  ultimately show ?thesis by simp
qed

lemma length_select_diverse_stories:
  assumes "distinct c" and "1 \<le> N" and "N \<le> int (length c)"
  shows "int (length (select_diverse_stories c N)) = N"
proof (cases "int (length c) \<le> N")
  case True
  with assms show ?thesis by (simp add: select_diverse_stories_char)
next
  case False
  from assms have k: "max 1 (nat N) = nat N" by simp
  show ?thesis
  proof (cases "nat N \<le> length (firsts c {})")
    case True
    with False k assms show ?thesis by (simp add: select_diverse_stories_char)
  next
    case short: False
    have "length (sort_key (\<lambda>x. - priority_score x) (filter (\<lambda>a. a \<notin> set (firsts c {})) c))
            = length c - length (firsts c {})"
      using assms(1) by (simp add: length_remaining)
    with False short k assms show ?thesis
      by (simp add: select_diverse_stories_char)
  qed
qed

lemma select_all_when_few: "int (length c) \<le> N \<Longrightarrow> select_diverse_stories c N = c"
  by (simp add: select_diverse_stories_def)

lemma eligible_subset: "set (eligible cutoff s) \<subseteq> set (rows s)"
  by (auto simp: eligible_def)

lemma query_candidates_subset: "set (query_candidates cutoff s) \<subseteq> set (eligible cutoff s)"
proof
  fix x assume "x \<in> set (query_candidates cutoff s)"
  then have "x \<in> set (sort_key (\<lambda>r. - priority_score r)
               (sort_key (\<lambda>r. - collected_time r) (eligible cutoff s)))"
    unfolding query_candidates_def by (rule in_set_takeD)
  then show "x \<in> set (eligible cutoff s)" by simp
qed

lemma distinct_rows: "distinct (map row_id (rows s)) \<Longrightarrow> distinct (rows s)"
  by (simp add: distinct_map)

lemma distinct_query_candidates:
  "distinct (map row_id (rows s)) \<Longrightarrow> distinct (query_candidates cutoff s)"
  by (simp add: query_candidates_def eligible_def distinct_rows)

lemma length_query_candidates:
  "length (query_candidates cutoff s) = min 50 (length (eligible cutoff s))"
  by (simp add: query_candidates_def)

lemma query_candidates_empty: "query_candidates cutoff s = [] \<longleftrightarrow> eligible cutoff s = []"
  using length_query_candidates [of cutoff s] by (metis length_0_conv min_0R zero_neq_numeral min_def)

lemma distinct_fetch_candidates:
  "distinct (map row_id (rows s)) \<Longrightarrow> distinct (fetch_candidates hours now s)"
  by (simp add: fetch_candidates_def Let_def distinct_query_candidates)

lemma fst_get_top_stories:
  "fst (get_top_stories N hours now s) = select_diverse_stories (fetch_candidates hours now s) N"
  by (simp add: get_top_stories_def select_phase_def Let_def)

lemma fetch_candidates_window:
  "fetch_candidates hours now s = query_candidates (window_cutoff hours now s) s"
  by (simp add: fetch_candidates_def window_cutoff_def Let_def query_candidates_empty)

lemma select_diverse_stories_subset: "set (select_diverse_stories c N) \<subseteq> set c"
proof -
  have "set (take k (firsts c {})) \<subseteq> set c" for k
    using set_take_subset [of k "firsts c {}"] firsts_subset [of c "{}"] by blast
  moreover have "set (firsts c {} @ take k (sort_key (\<lambda>x. - priority_score x)
                   (filter (\<lambda>a. a \<notin> set (firsts c {})) c))) \<subseteq> set c" for k
    using firsts_subset [of c "{}"]
      set_take_subset [of k "sort_key (\<lambda>x. - priority_score x) (filter (\<lambda>a. a \<notin> set (firsts c {})) c)"]
    by auto
  ultimately show ?thesis
    unfolding select_diverse_stories_char by simp
qed

text \<open>
  Claim C3, as amended.  For every store whose row ids are distinct and every target count
  \<open>N\<close> of at least 1, the Selector returns exactly min(\<open>N\<close>, 50, \<open>e\<close>) rows, all of
  them eligible, where \<open>e\<close> is the number of eligible rows in the window (the 48-hour
  window when the given window has none): the candidate query keeps the best 50 only.  So
  for \<open>N\<close> up to 50 the Selector returns exactly \<open>N\<close> rows when at least \<open>N\<close> rows are
  eligible, and all the eligible rows when at most \<open>N\<close> are.
\<close>

theorem selector_count:
  assumes "distinct (map row_id (rows s))" and "1 \<le> N"
  shows "int (length (fst (get_top_stories N hours now s)))
           = min N (min 50 (int (length (eligible (window_cutoff hours now s) s))))
       \<and> set (fst (get_top_stories N hours now s)) \<subseteq> set (eligible (window_cutoff hours now s) s)
       \<and> (int (length (eligible (window_cutoff hours now s) s)) \<le> min N 50
            \<longrightarrow> set (fst (get_top_stories N hours now s)) = set (eligible (window_cutoff hours now s) s))"
proof -
  let ?c = "query_candidates (window_cutoff hours now s) s"
  let ?e = "eligible (window_cutoff hours now s) s"
  let ?r = "select_diverse_stories ?c N"
  have r: "fst (get_top_stories N hours now s) = ?r"
    by (simp only: fst_get_top_stories fetch_candidates_window)
  have lc: "int (length ?c) = min 50 (int (length ?e))"
    by (simp add: length_query_candidates)
  have dc: "distinct ?c"
    using assms(1) by (rule distinct_query_candidates)
  have len: "int (length ?r) = min N (int (length ?c))"
  proof (cases "N \<le> int (length ?c)")
    case True
    with length_select_diverse_stories [OF dc assms(2)] show ?thesis by simp
  next
    case False
    then have "?r = ?c" by (intro select_all_when_few) simp
    with False show ?thesis by simp
  qed
  have sub: "set ?r \<subseteq> set ?e"
    using select_diverse_stories_subset [of ?c N] query_candidates_subset [of "window_cutoff hours now s" s]
    by blast
  have all: "set ?r = set ?e" if "int (length ?e) \<le> min N 50"
  proof -
    from that have "length ?e \<le> 50" by simp
    then have "?c = sort_key (\<lambda>r. - priority_score r) (sort_key (\<lambda>r. - collected_time r) ?e)"
      by (simp add: query_candidates_def)
    then have sc: "set ?c = set ?e" by simp
    from that lc have "int (length ?c) \<le> N" by simp
    then have "?r = ?c" by (rule select_all_when_few)
    with sc show ?thesis by simp
  qed
  from len lc sub all show ?thesis unfolding r by simp
qed

text \<open>
  Witness for claim C3, on scenario 2 of the specification: five eligible rows; the target 3
  gives three rows, the target 5 gives all five.
\<close>

theorem selector_count_witness:
  "length (eligible (window_cutoff 24 0 scenario_store) scenario_store) = 5
   \<and> int (length (fst (get_top_stories 3 24 0 scenario_store))) = 3
   \<and> set (fst (get_top_stories 5 24 0 scenario_store))
       = set (eligible (window_cutoff 24 0 scenario_store) scenario_store)"
proof -
  have d: "distinct (map row_id (rows scenario_store))" by code_simp
  have l: "length (eligible (window_cutoff 24 0 scenario_store) scenario_store) = 5" by code_simp
  have "int (length (fst (get_top_stories 3 24 0 scenario_store))) = 3"
    using selector_count [OF d, of 3 24 0] l by simp
  moreover have "set (fst (get_top_stories 5 24 0 scenario_store))
       = set (eligible (window_cutoff 24 0 scenario_store) scenario_store)"
    using selector_count [OF d, of 5 24 0] l by simp
  ultimately show ?thesis using l by blast
qed

text \<open>
  Claim C3 as stated fails: with 51 eligible rows in the window and the target count 51 the
  query hands over 50 candidates only, and the Selector returns 50 rows, neither 51 nor all
  of the eligible ones.
\<close>

theorem selector_count_counterexample:
  "length (eligible (0 - hours_delta 24) crowded_store) = 51
   \<and> length (fst (get_top_stories 51 24 0 crowded_store)) = 50"
  by code_simp

lemma firsts_all:
  "distinct (map category c) \<Longrightarrow> category ` set c \<inter> used = {} \<Longrightarrow> firsts c used = c"
proof (induction c arbitrary: used)
  case Nil
  show ?case by simp
next
  case (Cons a c)
  from Cons.prems have "category a \<notin> used" by auto
  moreover from Cons.prems have "category ` set c \<inter> insert (category a) used = {}" by auto
  moreover from Cons.prems have "distinct (map category c)" by simp
  ultimately show ?case using Cons.IH [of "insert (category a) used"] by simp
qed

lemma select_diverse_stories_diverse:
  assumes "N \<le> int (card (category ` set c))"
  shows "distinct (map category (select_diverse_stories c N))
       \<and> set (select_diverse_stories c N) \<subseteq> set (firsts c {})"
proof (cases "int (length c) \<le> N")
  case True
  have "card (category ` set c) \<le> length c"
    using card_image_le [of "set c" category] card_length [of c] by simp
  with True assms have "card (set (map category c)) = length (map category c)" by simp
  then have d: "distinct (map category c)" by (rule card_distinct)
  then have "firsts c {} = c" by (rule firsts_all) simp
  with True d show ?thesis by (simp add: select_diverse_stories_char)
next
  case False
  show ?thesis
  proof (cases "max 1 (nat N) \<le> length (firsts c {})")
    case True
    with False have r: "select_diverse_stories c N = take (max 1 (nat N)) (firsts c {})"
      by (simp add: select_diverse_stories_char)
    have "distinct (take (max 1 (nat N)) (map category (firsts c {})))"
      using firsts_distinct_categories by (rule distinct_take)
    then have "distinct (map category (take (max 1 (nat N)) (firsts c {})))"
      by (simp only: take_map)
    moreover have "set (take (max 1 (nat N)) (firsts c {})) \<subseteq> set (firsts c {})"
      by (rule set_take_subset)
    ultimately show ?thesis unfolding r by blast
  next
    case short: False
    from assms have "nat N \<le> length (firsts c {})" by (simp add: length_firsts)
    with short have "length (firsts c {}) = 0" by (cases "firsts c {}") simp_all
    then have "card (category ` set c) = 0" by (simp only: length_firsts)
    then have "c = []" by simp
    then show ?thesis by (simp add: select_diverse_stories_char)
  qed
qed

text \<open>
  Claim C4, as amended.  For every store and every target count \<open>N\<close>: when \<open>N\<close> is at
  most the number of distinct categories among the candidates that the query returns (the
  best 50 eligible rows), no two rows of the Selector's result have the same category, and
  every row of the result is the first candidate of its category in rank order.
\<close>

theorem selector_diversity:
  assumes "N \<le> int (card (category ` set (fetch_candidates hours now s)))"
  shows "distinct (map category (fst (get_top_stories N hours now s)))
       \<and> (\<forall>a\<in>set (fst (get_top_stories N hours now s)).
            find (\<lambda>b. category b = category a) (fetch_candidates hours now s) = Some a)"
proof -
  from select_diverse_stories_diverse [OF assms]
  have d: "distinct (map category (select_diverse_stories (fetch_candidates hours now s) N))"
    and sub: "set (select_diverse_stories (fetch_candidates hours now s) N)
                \<subseteq> set (firsts (fetch_candidates hours now s) {})"
    by blast+
  have "find (\<lambda>b. category b = category a) (fetch_candidates hours now s) = Some a"
    if "a \<in> set (select_diverse_stories (fetch_candidates hours now s) N)" for a
    using that sub by (intro firsts_first [of a _ "{}"]) blast
  with d show ?thesis unfolding fst_get_top_stories by blast
qed

text \<open>
  Witness for claim C4, on scenario 2 with the target 2: the candidates span two categories,
  and the result is the best Politics row and the best Sports row.
\<close>

theorem selector_diversity_witness:
  "map category (fst (get_top_stories 2 24 0 scenario_store)) = [''Politics'', ''Sports'']
   \<and> distinct (map category (fst (get_top_stories 2 24 0 scenario_store)))
   \<and> list_all (\<lambda>a. find (\<lambda>b. category b = category a) (fetch_candidates 24 0 scenario_store) = Some a)
        (fst (get_top_stories 2 24 0 scenario_store))"
proof -
  have h: "2 \<le> int (card (category ` set (fetch_candidates 24 0 scenario_store)))"
    by code_simp
  have v: "map category (fst (get_top_stories 2 24 0 scenario_store)) = [''Politics'', ''Sports'']"
    by code_simp
  from selector_diversity [OF h] v show ?thesis
    by (simp only: list_all_iff) blast
qed

text \<open>
  Claim C4 as stated fails: the eligible rows of the crowded store span two categories, but
  the one Sports row ranks 51st and is cut off by the limit of the query, so the target 2
  yields two Politics rows.
\<close>

theorem selector_diversity_counterexample:
  "card (category ` set (eligible (0 - hours_delta 24) crowded_store)) = 2
   \<and> map category (fst (get_top_stories 2 24 0 crowded_store)) = [''Politics'', ''Politics'']"
  by code_simp

section \<open>The dedup store: upsert\<close>

lemma insert_or_ignore_present:
  "list_ex (\<lambda>r. article_hash r = h) (rows s) \<Longrightarrow>
     rows (fst (insert_or_ignore h ttl descr lnk src cat pub col prio us excl s)) = rows s
     \<and> snd (insert_or_ignore h ttl descr lnk src cat pub col prio us excl s) = 0"
  by (simp add: insert_or_ignore_def Let_def)

lemma insert_or_ignore_absent:
  "\<not> list_ex (\<lambda>r. article_hash r = h) (rows s) \<Longrightarrow>
     rows (fst (insert_or_ignore h ttl descr lnk src cat pub col prio us excl s))
       = rows s @ [\<lparr>row_id = next_rowid s, article_hash = h, title = ttl, description = descr,
                      link = lnk, source = src, category = cat, published_time = pub,
                      collected_time = col, priority_score = prio, is_us_related = us,
                      is_excluded = excl, selected_for_post = False, posted = False\<rparr>]
     \<and> snd (insert_or_ignore h ttl descr lnk src cat pub col prio us excl s) = 1"
  by (simp add: insert_or_ignore_def Let_def)

lemma upsert_present:
  assumes "\<exists>r\<in>set (rows s). article_hash r = generate_hash md5 t l"
  shows "rows (fst (upsert md5 src now t d l p s)) = rows s"
    and "snd (upsert md5 src now t d l p s) = 0"
  using assms insert_or_ignore_present [of "generate_hash md5 t l" s]
  by (simp_all add: upsert_def Let_def list_ex_iff)

lemma upsert_absent:
  assumes "\<not> (\<exists>r\<in>set (rows s). article_hash r = generate_hash md5 t l)"
  shows "\<exists>new. rows (fst (upsert md5 src now t d l p s)) = rows s @ [new]
           \<and> article_hash new = generate_hash md5 t l
           \<and> title new = t \<and> description new = d \<and> link new = l \<and> source new = src
           \<and> collected_time new = now
           \<and> \<not> selected_for_post new \<and> \<not> posted new"
    and "snd (upsert md5 src now t d l p s) = 1"
  using assms insert_or_ignore_absent [of "generate_hash md5 t l" s]
  by (simp_all add: upsert_def Let_def list_ex_iff)

lemma upsert_stores_hash:
  "\<exists>r\<in>set (rows (fst (upsert md5 src now t d l p s))). article_hash r = generate_hash md5 t l"
proof (cases "\<exists>r\<in>set (rows s). article_hash r = generate_hash md5 t l")
  case True
  then show ?thesis by (simp only: upsert_present(1) [OF True])
next
  case False
  from upsert_absent(1) [OF False, of src now d p] show ?thesis by auto
qed

lemma upsert_extends: "\<exists>extra. rows (fst (upsert md5 src now t d l p s)) = rows s @ extra"
proof (cases "\<exists>r\<in>set (rows s). article_hash r = generate_hash md5 t l")
  case True
  then show ?thesis by (simp add: upsert_present(1))
next
  case False
  from upsert_absent(1) [OF False, of src now d p] show ?thesis by blast
qed

lemma upsert_distinct_hashes:
  assumes "distinct (map article_hash (rows s))"
  shows "distinct (map article_hash (rows (fst (upsert md5 src now t d l p s))))"
proof (cases "\<exists>r\<in>set (rows s). article_hash r = generate_hash md5 t l")
  case True
  with assms show ?thesis by (simp add: upsert_present(1))
next
  case False
  from upsert_absent(1) [OF False, of src now d p] obtain new
    where "rows (fst (upsert md5 src now t d l p s)) = rows s @ [new]"
      and "article_hash new = generate_hash md5 t l" by blast
  with assms False show ?thesis by auto
qed

lemma collect_entry_extends: "\<exists>extra. rows (fst (collect_entry md5 src now e s)) = rows s @ extra"
  using upsert_extends by (simp add: collect_entry_def Let_def)

lemma collect_entry_distinct_hashes:
  "distinct (map article_hash (rows s)) \<Longrightarrow>
     distinct (map article_hash (rows (fst (collect_entry md5 src now e s))))"
  using upsert_distinct_hashes by (simp add: collect_entry_def Let_def)

lemma collect_feed_extends: "\<exists>extra. rows (fst (collect_feed md5 src es s n)) = rows s @ extra"
proof (induction es arbitrary: s n)
  case Nil
  show ?case by simp
next
  case (Cons x es)
  obtain now e where x: "x = (now, e)" by (cases x)
  obtain s' k where c: "collect_entry md5 src now e s = (s', k)" by (cases "collect_entry md5 src now e s")
  from collect_entry_extends [of md5 src now e s] c obtain ex1 where "rows s' = rows s @ ex1" by auto
  moreover from Cons.IH [of s' "if k > 0 then n + 1 else n"] obtain ex2
    where "rows (fst (collect_feed md5 src es s' (if k > 0 then n + 1 else n))) = rows s' @ ex2" by blast
  ultimately show ?case by (simp add: x c)
qed

lemma collect_feed_distinct_hashes:
  "distinct (map article_hash (rows s)) \<Longrightarrow>
     distinct (map article_hash (rows (fst (collect_feed md5 src es s n))))"
proof (induction es arbitrary: s n)
  case Nil
  then show ?case by simp
next
  case (Cons x es)
  obtain now e where x: "x = (now, e)" by (cases x)
  obtain s' k where c: "collect_entry md5 src now e s = (s', k)" by (cases "collect_entry md5 src now e s")
  from collect_entry_distinct_hashes [OF Cons.prems, of md5 src now e] c
  have "distinct (map article_hash (rows s'))" by simp
  from Cons.IH [OF this] show ?case by (simp add: x c)
qed

lemma one_row_per_hash:
  "distinct (map f xs) \<Longrightarrow> x \<in> set xs \<Longrightarrow> length (filter (\<lambda>y. f y = f x) xs) = 1"
proof (induction xs)
  case Nil
  then show ?case by simp
next
  case (Cons a xs)
  show ?case
  proof (cases "f a = f x")
    case True
    from Cons.prems have "f a \<notin> f ` set xs" by simp
    with True have "\<forall>y\<in>set xs. f y \<noteq> f x" by (metis imageI)
    then have "filter (\<lambda>y. f y = f x) xs = []" by (simp add: filter_empty_conv)
    with True show ?thesis by simp
  next
    case False
    with Cons.prems have "x \<in> set xs" by auto
    with Cons.IH Cons.prems False show ?thesis by simp
  qed
qed

text \<open>
  Claim C5.  In a store whose fingerprints are distinct (the \<^verbatim>\<open>UNIQUE\<close> constraint), let
  a title and link be upserted, then any feed be collected, then the same title and link be
  upserted again, whatever the description, source, clock and publication time of the two
  calls.  The second upsert leaves the table as it found it and reports \<^verbatim>\<open>rowcount\<close> 0,
  and the table holds exactly one row with the fingerprint of that title and link.  (What
  the second call does change is the rowid counter of the engine, which no query reads.)
\<close>

theorem upsert_idempotent:
  assumes "distinct (map article_hash (rows s))"
  shows "rows (fst (upsert md5 src2 now2 t d2 l p2
                 (fst (collect_feed md5 src es (fst (upsert md5 src1 now1 t d1 l p1 s)) n))))
           = rows (fst (collect_feed md5 src es (fst (upsert md5 src1 now1 t d1 l p1 s)) n))
       \<and> snd (upsert md5 src2 now2 t d2 l p2
                 (fst (collect_feed md5 src es (fst (upsert md5 src1 now1 t d1 l p1 s)) n))) = 0
       \<and> length (filter (\<lambda>r. article_hash r = generate_hash md5 t l)
           (rows (fst (upsert md5 src2 now2 t d2 l p2
                 (fst (collect_feed md5 src es (fst (upsert md5 src1 now1 t d1 l p1 s)) n)))))) = 1"
proof -
  let ?s1 = "fst (upsert md5 src1 now1 t d1 l p1 s)"
  let ?s2 = "fst (collect_feed md5 src es ?s1 n)"
  from upsert_stores_hash [of md5 src1 now1 t d1 l p1 s] obtain r
    where r1: "r \<in> set (rows ?s1)" and h: "article_hash r = generate_hash md5 t l" by blast
  from collect_feed_extends [of md5 src es ?s1 n] r1 have r2: "r \<in> set (rows ?s2)" by auto
  with h have present: "\<exists>r\<in>set (rows ?s2). article_hash r = generate_hash md5 t l" by blast
  have d2: "distinct (map article_hash (rows ?s2))"
    using assms by (intro collect_feed_distinct_hashes upsert_distinct_hashes)
  have "length (filter (\<lambda>y. article_hash y = article_hash r) (rows ?s2)) = 1"
    using d2 r2 by (rule one_row_per_hash)
  then have "length (filter (\<lambda>y. article_hash y = generate_hash md5 t l) (rows ?s2)) = 1"
    by (simp only: h)
  with upsert_present [OF present, of src2 now2 d2 p2] show ?thesis by simp
qed

text \<open>
  Witness for claim C5, scenario 1 of the specification: \<^verbatim>\<open>Senate Passes Bill\<close> ingested
  twice into the empty store leaves one row.
\<close>

theorem upsert_idempotent_witness:
  "rows (fst (upsert (\<lambda>x. x) ''NBC'' 200 ''Senate Passes Bill'' ''Other words'' ''http://example.com/a'' ''Mon''
            (fst (collect_feed (\<lambda>x. x) ''AP'' [] senate_store 0)))) = rows senate_store
   \<and> length (rows senate_store) = 1"
proof -
  have d: "distinct (map article_hash (rows empty_store))" by (simp add: empty_store_def)
  have "length (rows senate_store) = 1" by code_simp
  moreover have "fst (collect_feed (\<lambda>x. x) ''AP'' [] senate_store 0) = senate_store" by simp
  ultimately show ?thesis
    using upsert_idempotent [OF d, of "\<lambda>x. x" "''NBC''" 200 "''Senate Passes Bill''" "''Other words''"
        "''http://example.com/a''" "''Mon''" "''AP''" "[]" "''CNN''" 100 "''The vote was close''" "[]" 0]
    by (simp add: senate_store_def)
qed

text \<open>
  Claim C10.  When the fingerprint of the incoming title and link is already stored, the
  upsert leaves the whole table unchanged, so every field of the existing row keeps its
  value whatever the incoming description, source, clock or publication time; otherwise it
  appends exactly one row, with that fingerprint and the incoming values, in state
  Unselected.
\<close>

theorem upsert_keeps_existing_row:
  "if \<exists>r\<in>set (rows s). article_hash r = generate_hash md5 t l
   then rows (fst (upsert md5 src now t d l p s)) = rows s
        \<and> snd (upsert md5 src now t d l p s) = 0
   else (\<exists>new. rows (fst (upsert md5 src now t d l p s)) = rows s @ [new]
           \<and> article_hash new = generate_hash md5 t l
           \<and> title new = t \<and> description new = d \<and> link new = l \<and> source new = src
           \<and> collected_time new = now
           \<and> \<not> selected_for_post new \<and> \<not> posted new)
        \<and> snd (upsert md5 src now t d l p s) = 1"
proof (cases "\<exists>r\<in>set (rows s). article_hash r = generate_hash md5 t l")
  case True
  from upsert_present [OF True, of src now d p] show ?thesis
    by (subst if_P [OF True]) blast
next
  case False
  from upsert_absent [OF False, of src now d p] show ?thesis
    by (subst if_not_P [OF False]) blast
qed

text \<open>
  Witness for claim C10: the stored entry arrives again in another letter case, with another
  description and source; the table, and the stored description, stay as they were.
\<close>

theorem upsert_keeps_existing_row_witness:
  "rows (fst (upsert (\<lambda>x. x) ''NBC'' 200 ''SENATE passes bill'' ''Other words'' ''http://EXAMPLE.com/a'' ''Mon''
            senate_store)) = rows senate_store
   \<and> map description (rows senate_store) = [''The vote was close'']"
proof -
  have p: "\<exists>r\<in>set (rows senate_store).
             article_hash r = generate_hash (\<lambda>x. x) ''SENATE passes bill'' ''http://EXAMPLE.com/a''"
    by code_simp
  have "map description (rows senate_store) = [''The vote was close'']" by code_simp
  moreover have "rows (fst (upsert (\<lambda>x. x) ''NBC'' 200 ''SENATE passes bill'' ''Other words'' ''http://EXAMPLE.com/a'' ''Mon''
            senate_store)) = rows senate_store"
    using upsert_keeps_existing_row [of senate_store "\<lambda>x. x" "''SENATE passes bill''" "''http://EXAMPLE.com/a''"
        "''NBC''" 200 "''Other words''" "''Mon''"]
    unfolding if_P [OF p] by blast
  ultimately show ?thesis by blast
qed

section \<open>Lifecycle and retention\<close>

lemma state_of_simps:
  "state_of r = Posted \<longleftrightarrow> posted r"
  "state_of r = Selected \<longleftrightarrow> \<not> posted r \<and> selected_for_post r"
  "state_of r = Unselected \<longleftrightarrow> \<not> posted r \<and> \<not> selected_for_post r"
  by (simp_all add: state_of_def)

lemma reset_row_cases:
  "(if \<not> posted r then r\<lparr>selected_for_post := False\<rparr> else r)
     = (if state_of r = Selected then r\<lparr>selected_for_post := False\<rparr> else r)"
  by (cases "posted r"; cases "selected_for_post r") (simp_all add: state_of_def)

lemma filter_map_fixed:
  assumes "\<And>x. P (f x) = P x" and "\<And>x. P x \<Longrightarrow> f x = x"
  shows "filter P (map f xs) = filter P xs"
  by (induction xs) (simp_all add: assms)

text \<open>
  Claim C6.  For every store, whatever the cutoff and the clock: the Posted rows after
  \<^verbatim>\<open>reset_selections\<close>, and after the purge, are exactly the Posted rows before, each
  unchanged and in the same order, so no Posted row is moved back or deleted, however old
  it is; and \<^verbatim>\<open>reset_selections\<close> turns every Selected row into an Unselected one and
  leaves every other row as it is.
\<close>

theorem posted_is_terminal:
  "filter (\<lambda>r. state_of r = Posted) (rows (reset_selections s))
     = filter (\<lambda>r. state_of r = Posted) (rows s)
   \<and> filter (\<lambda>r. state_of r = Posted) (rows (delete_old cutoff s))
     = filter (\<lambda>r. state_of r = Posted) (rows s)
   \<and> filter (\<lambda>r. state_of r = Posted) (rows (clean_old_articles now s))
     = filter (\<lambda>r. state_of r = Posted) (rows s)
   \<and> rows (reset_selections s)
     = map (\<lambda>r. if state_of r = Selected then r\<lparr>selected_for_post := False\<rparr> else r) (rows s)
   \<and> map state_of (rows (reset_selections s))
     = map (\<lambda>r. if state_of r = Selected then Unselected else state_of r) (rows s)"
proof -
  have rows_reset: "rows (reset_selections s)
     = map (\<lambda>r. if state_of r = Selected then r\<lparr>selected_for_post := False\<rparr> else r) (rows s)"
    by (simp add: reset_selections_def reset_row_cases)
  have a: "filter (\<lambda>r. state_of r = Posted) (rows (reset_selections s))
     = filter (\<lambda>r. state_of r = Posted) (rows s)"
    unfolding rows_reset by (rule filter_map_fixed) (simp_all add: state_of_def)
  have b: "filter (\<lambda>r. state_of r = Posted) (rows (delete_old c s))
     = filter (\<lambda>r. state_of r = Posted) (rows s)" for c
    by (auto simp: delete_old_def state_of_simps intro: filter_cong)
  have d: "map state_of (rows (reset_selections s))
     = map (\<lambda>r. if state_of r = Selected then Unselected else state_of r) (rows s)"
    unfolding rows_reset by (simp add: state_of_def)
  from a b [of cutoff] b [of "now - days_delta ARCHIVE_DAYS"] rows_reset d show ?thesis
    by (simp add: clean_old_articles_def Let_def)
qed

text \<open>
  Witness for claim C6, scenarios 4 and 5 of the specification: of a Posted, a Selected and
  an Unselected row, all ten days old, the reset reverts the Selected one only, and the purge
  keeps the Posted one only.
\<close>

theorem posted_is_terminal_witness:
  "map row_id (filter (\<lambda>r. state_of r = Posted) (rows (reset_selections lifecycle_store))) = [1]
   \<and> map row_id (filter (\<lambda>r. state_of r = Posted) (rows (clean_old_articles (days_delta 10) lifecycle_store))) = [1]
   \<and> map state_of (rows (reset_selections lifecycle_store)) = [Posted, Unselected, Unselected]"
proof -
  have p: "map row_id (filter (\<lambda>r. state_of r = Posted) (rows lifecycle_store)) = [1]"
    by code_simp
  have q: "map (\<lambda>r. if state_of r = Selected then Unselected else state_of r) (rows lifecycle_store)
             = [Posted, Unselected, Unselected]"
    by code_simp
  note t = posted_is_terminal [of lifecycle_store 0 "days_delta 10"]
  from t have r1: "filter (\<lambda>r. state_of r = Posted) (rows (reset_selections lifecycle_store))
      = filter (\<lambda>r. state_of r = Posted) (rows lifecycle_store)" by blast
  from t have r3: "filter (\<lambda>r. state_of r = Posted) (rows (clean_old_articles (days_delta 10) lifecycle_store))
      = filter (\<lambda>r. state_of r = Posted) (rows lifecycle_store)" by blast
  from t have r5: "map state_of (rows (reset_selections lifecycle_store))
      = map (\<lambda>r. if state_of r = Selected then Unselected else state_of r) (rows lifecycle_store)" by blast
  show ?thesis by (simp only: r1 r3 r5 p q)
qed

text \<open>
  Claim C1, as amended.  For every list of ids and every store, \<^verbatim>\<open>mark_as_posted\<close> puts
  every row whose id is in the list into state Posted, whatever its state was, Selected or
  Unselected; it changes no other column of those rows, and keeps every row whose id is not
  in the list as it is.  Calling it again on the same ids changes nothing, and an id that no
  row carries is ignored.
\<close>

theorem mark_as_posted_effect:
  "map state_of (rows (mark_as_posted ids s))
     = map (\<lambda>r. if row_id r \<in> set ids then Posted else state_of r) (rows s)
   \<and> map (\<lambda>r. r\<lparr>posted := True\<rparr>) (rows (mark_as_posted ids s))
     = map (\<lambda>r. r\<lparr>posted := True\<rparr>) (rows s)
   \<and> filter (\<lambda>r. row_id r \<notin> set ids) (rows (mark_as_posted ids s))
     = filter (\<lambda>r. row_id r \<notin> set ids) (rows s)
   \<and> mark_as_posted ids (mark_as_posted ids s) = mark_as_posted ids s"
proof -
  have a: "map state_of (rows (mark_as_posted ids s))
     = map (\<lambda>r. if row_id r \<in> set ids then Posted else state_of r) (rows s)"
    by (simp add: mark_as_posted_def state_of_def)
  have b: "map (\<lambda>r. r\<lparr>posted := True\<rparr>) (rows (mark_as_posted ids s))
     = map (\<lambda>r. r\<lparr>posted := True\<rparr>) (rows s)"
    by (simp add: mark_as_posted_def)
  have c: "filter (\<lambda>r. row_id r \<notin> set ids) (rows (mark_as_posted ids s))
     = filter (\<lambda>r. row_id r \<notin> set ids) (rows s)"
  proof -
    have r: "rows (mark_as_posted ids s)
        = map (\<lambda>r. if row_id r \<in> set ids then r\<lparr>posted := True\<rparr> else r) (rows s)"
      by (simp add: mark_as_posted_def)
    show ?thesis unfolding r by (rule filter_map_fixed) simp_all
  qed
  have d: "mark_as_posted ids (mark_as_posted ids s) = mark_as_posted ids s"
    by (simp add: mark_as_posted_def comp_def)
  from a b c d show ?thesis by blast
qed

text \<open>
  Claim C1 as stated fails: row 3 of the example store is Unselected, and
  \<^verbatim>\<open>mark_as_posted([3])\<close> makes it Posted instead of leaving it untouched.
\<close>

theorem mark_as_posted_counterexample:
  "row_id (rows lifecycle_store ! 2) = 3
   \<and> state_of (rows lifecycle_store ! 2) = Unselected
   \<and> state_of (rows (mark_as_posted [3] lifecycle_store) ! 2) = Posted"
  by code_simp

lemma select_diverse_stories_Nil: "select_diverse_stories [] N = []"
  by (simp add: select_diverse_stories_def)

section \<open>The Selector: empty pools and overlapping invocations\<close>

lemma fetch_candidates_eligible:
  assumes "x \<in> set (fetch_candidates hours now s)"
  shows "x \<in> set (rows s) \<and> \<not> selected_for_post x"
proof -
  from assms have "x \<in> set (eligible (window_cutoff hours now s) s)"
    unfolding fetch_candidates_window using query_candidates_subset by blast
  then show ?thesis by (simp add: eligible_def)
qed

text \<open>
  Claim C7, as amended.  For every window size, target count, clock and store: when the
  window holds an eligible row the Selector selects among the candidates of that window, with
  no retry; when it holds none the Selector queries once more, over the last 48 hours
  whatever window it was given, and selects among those candidates; when that query finds
  nothing either, the Selector returns the empty list and leaves the store as it is.  The
  function returns a value in every case: an empty pool is no error.
\<close>

theorem empty_candidates_retry_48:
  "(eligible (now - hours_delta hours) s \<noteq> [] \<longrightarrow>
      fst (get_top_stories N hours now s)
        = select_diverse_stories (query_candidates (now - hours_delta hours) s) N)
   \<and> (eligible (now - hours_delta hours) s = [] \<longrightarrow>
      fst (get_top_stories N hours now s)
        = select_diverse_stories (query_candidates (now - hours_delta 48) s) N)
   \<and> (eligible (now - hours_delta hours) s = [] \<and> eligible (now - hours_delta 48) s = [] \<longrightarrow>
      get_top_stories N hours now s = ([], s))"
proof (intro conjI impI)
  assume "eligible (now - hours_delta hours) s \<noteq> []"
  then show "fst (get_top_stories N hours now s)
        = select_diverse_stories (query_candidates (now - hours_delta hours) s) N"
    by (simp add: fst_get_top_stories fetch_candidates_window window_cutoff_def)
next
  assume "eligible (now - hours_delta hours) s = []"
  then show "fst (get_top_stories N hours now s)
        = select_diverse_stories (query_candidates (now - hours_delta 48) s) N"
    by (simp add: fst_get_top_stories fetch_candidates_window window_cutoff_def)
next
  assume a: "eligible (now - hours_delta hours) s = [] \<and> eligible (now - hours_delta 48) s = []"
  then have "fetch_candidates hours now s = []"
    by (simp add: fetch_candidates_window window_cutoff_def query_candidates_empty)
  then show "get_top_stories N hours now s = ([], s)"
    by (simp add: get_top_stories_def select_phase_def mark_phase_def select_diverse_stories_Nil)
qed

text \<open>
  Witness for claim C7: a row collected 30 hours ago is outside a 12-hour window and is
  found by the retry over 48 hours; on the empty store both queries find nothing and the
  result is empty.
\<close>

theorem empty_candidates_retry_48_witness:
  "map row_id (fst (get_top_stories 5 12 (hours_delta 100) stale_store)) = [1]
   \<and> get_top_stories 5 24 0 empty_store = ([], empty_store)"
proof -
  have e12: "eligible (hours_delta 100 - hours_delta 12) stale_store = []" by code_simp
  have s48: "map row_id (select_diverse_stories (query_candidates (hours_delta 100 - hours_delta 48) stale_store) 5) = [1]"
    by code_simp
  have e0: "eligible (0 - hours_delta 24) empty_store = [] \<and> eligible (0 - hours_delta 48) empty_store = []"
    by code_simp
  from empty_candidates_retry_48 [of "hours_delta 100" 12 stale_store 5] e12
  have "fst (get_top_stories 5 12 (hours_delta 100) stale_store)
        = select_diverse_stories (query_candidates (hours_delta 100 - hours_delta 48) stale_store) 5"
    by blast
  with s48 have "map row_id (fst (get_top_stories 5 12 (hours_delta 100) stale_store)) = [1]"
    by (simp only:)
  moreover from empty_candidates_retry_48 [of 0 24 empty_store 5] e0
  have "get_top_stories 5 24 0 empty_store = ([], empty_store)" by blast
  ultimately show ?thesis by blast
qed

text \<open>
  Claim C7 as stated fails: with a window of 12 hours and one eligible row collected 30
  hours ago, a retry over the doubled window of 24 hours finds nothing, so the claim gives
  the empty result; the code retries over 48 hours and returns the row.
\<close>

theorem retry_window_counterexample:
  "map row_id (fst (get_top_stories 5 12 (hours_delta 100) stale_store)) = [1]
   \<and> select_diverse_stories (spec_fetch_candidates_doubled 12 (hours_delta 100) stale_store) 5 = []"
  by code_simp

lemma rows_mark_phase:
  "rows (mark_phase selected s)
     = map (\<lambda>r. if row_id r \<in> row_id ` set selected then r\<lparr>selected_for_post := True\<rparr> else r) (rows s)"
proof (cases "selected = []")
  case True
  then show ?thesis by (simp add: mark_phase_def)
next
  case False
  then show ?thesis by (simp add: mark_phase_def mark_as_selected_def)
qed

text \<open>
  Claim C9, as amended.  The Selector reads the candidates on one connection and marks the
  selected rows on another, as two separate operations on the store.  When one invocation
  has finished before the next starts, whatever their target counts, windows and clocks, the
  two never return a row with the same id: the second reads the marks of the first.  Nothing
  keeps two invocations from overlapping, and when they do they can return the same rows.
\<close>

theorem sequential_invocations_disjoint:
  "row_id ` set (fst (get_top_stories N1 hours1 now1 s))
     \<inter> row_id ` set (fst (get_top_stories N2 hours2 now2 (snd (get_top_stories N1 hours1 now1 s)))) = {}"
proof -
  let ?r1 = "select_phase N1 hours1 now1 s"
  let ?s1 = "mark_phase ?r1 s"
  let ?r2 = "select_phase N2 hours2 now2 ?s1"
  have g1: "fst (get_top_stories N1 hours1 now1 s) = ?r1"
    and g2: "snd (get_top_stories N1 hours1 now1 s) = ?s1"
    by (simp_all add: get_top_stories_def Let_def)
  have g3: "fst (get_top_stories N2 hours2 now2 ?s1) = ?r2"
    by (simp add: get_top_stories_def Let_def)
  have "row_id x \<notin> row_id ` set ?r1" if "x \<in> set ?r2" for x
  proof
    assume in1: "row_id x \<in> row_id ` set ?r1"
    from that have "x \<in> set (fetch_candidates hours2 now2 ?s1)"
      unfolding select_phase_def using select_diverse_stories_subset by blast
    then have xs: "x \<in> set (rows ?s1)" and unsel: "\<not> selected_for_post x"
      using fetch_candidates_eligible by blast+
    from xs obtain y where y: "y \<in> set (rows s)"
      and x: "x = (if row_id y \<in> row_id ` set ?r1 then y\<lparr>selected_for_post := True\<rparr> else y)"
      unfolding rows_mark_phase by auto
    have "row_id x = row_id y" unfolding x by simp
    with in1 have "row_id y \<in> row_id ` set ?r1" by simp
    with x have "x = y\<lparr>selected_for_post := True\<rparr>" by simp
    then have "selected_for_post x" by simp
    with unsel show False by contradiction
  qed
  then have disj: "\<And>x. x \<in> set ?r2 \<Longrightarrow> row_id x \<notin> row_id ` set ?r1" .
  have "row_id ` set ?r1 \<inter> row_id ` set ?r2 = {}"
  proof (rule ccontr)
    assume "row_id ` set ?r1 \<inter> row_id ` set ?r2 \<noteq> {}"
    then obtain i where i1: "i \<in> row_id ` set ?r1" and i2: "i \<in> row_id ` set ?r2" by blast
    from i2 obtain x where "x \<in> set ?r2" and "i = row_id x" by blast
    with disj [of x] i1 show False by simp
  qed
  then show ?thesis unfolding g2 g1 g3 .
qed

text \<open>
  Claim C9 as stated fails: when two invocations both read before either writes, both return
  row 1 of the store that holds just that row.
\<close>

theorem overlapping_invocations_counterexample:
  "map row_id (fst (overlapping_invocations 5 24 0 single_store)) = [1]
   \<and> map row_id (fst (snd (overlapping_invocations 5 24 0 single_store))) = [1]"
  by code_simp

section \<open>Row ids stay distinct\<close>

text \<open>
  The count theorem asks for distinct row ids.  The empty store has them, and every
  operation keeps them: an insert draws a rowid above all stored ones, the updates do not
  touch the column, and the purge only removes rows.
\<close>

lemma row_id_le_foldr_max: "r \<in> set rs \<Longrightarrow> row_id r \<le> foldr max (map row_id rs) 0"
  by (induction rs) auto

lemma next_rowid_fresh: "r \<in> set (rows s) \<Longrightarrow> row_id r < next_rowid s"
  using row_id_le_foldr_max [of r "rows s"] by (simp add: next_rowid_def)

lemma upsert_distinct_ids:
  assumes "distinct (map row_id (rows s))"
  shows "distinct (map row_id (rows (fst (upsert md5 src now t d l p s))))"
proof (cases "list_ex (\<lambda>r. article_hash r = generate_hash md5 t l) (rows s)")
  case True
  with assms show ?thesis by (simp add: upsert_def insert_or_ignore_def Let_def)
next
  case False
  have "next_rowid s \<notin> row_id ` set (rows s)"
  proof
    assume "next_rowid s \<in> row_id ` set (rows s)"
    then obtain x where "x \<in> set (rows s)" and "row_id x = next_rowid s" by auto
    with next_rowid_fresh [of x s] show False by simp
  qed
  with False assms show ?thesis by (simp add: upsert_def insert_or_ignore_def Let_def)
qed

lemma collect_entry_distinct_ids:
  "distinct (map row_id (rows s)) \<Longrightarrow>
     distinct (map row_id (rows (fst (collect_entry md5 src now e s))))"
  using upsert_distinct_ids by (simp add: collect_entry_def Let_def)

lemma row_ids_mark_as_selected: "map row_id (rows (mark_as_selected ids s)) = map row_id (rows s)"
  by (simp add: mark_as_selected_def)

lemma row_ids_mark_as_posted: "map row_id (rows (mark_as_posted ids s)) = map row_id (rows s)"
  by (simp add: mark_as_posted_def)

lemma row_ids_reset_selections: "map row_id (rows (reset_selections s)) = map row_id (rows s)"
  by (simp add: reset_selections_def)

lemma row_ids_get_top_stories:
  "map row_id (rows (snd (get_top_stories N hours now s))) = map row_id (rows s)"
  by (simp add: get_top_stories_def mark_phase_def Let_def row_ids_mark_as_selected)

lemma delete_old_distinct_ids:
  "distinct (map row_id (rows s)) \<Longrightarrow> distinct (map row_id (rows (delete_old cutoff s)))"
  by (simp add: delete_old_def distinct_map_filter)

text \<open>
  A remark on the target count 0, which the count theorem leaves out: the first loop of
  \<^verbatim>\<open>_select_diverse_stories\<close> appends a row before it tests the count, so a non-empty
  pool yields one row.
\<close>

lemma zero_target_returns_one:
  "map row_id (fst (get_top_stories 0 24 0 scenario_store)) = [1]"
  by code_simp

end
